theory Spec2Isabelle
  imports Complex_Main
begin

section \<open>Python values shared by both modules\<close>

text \<open>
  Python floats are modelled as \<^typ>\<open>real\<close>, Python's unbounded integers as \<^typ>\<open>int\<close>,
  and the exceptions the code can raise as values of \<open>error\<close>; a function that can raise
  returns \<open>error + 'a\<close> with \<open>Inl\<close> for the exception.
\<close>

datatype error = IndexError | AttributeError

text \<open>
  The slice \<open>xs[start:stop]\<close> with step 1: a negative bound counts from the end and
  both bounds are clamped to \<open>0 .. len(xs)\<close>; the slice is empty when the bounds cross.
\<close>

definition py_slice :: "int \<Rightarrow> int \<Rightarrow> 'a list \<Rightarrow> 'a list" where
  "py_slice start stop xs =
     (let n = int (length xs);
          a = (if start < 0 then max (start + n) 0 else min start n);
          b = (if stop < 0 then max (stop + n) 0 else min stop n)
      in take (nat (b - a)) (drop (nat a) xs))"

text \<open>
  \<open>sorted(xs, key=..., reverse=True)\<close>: descending by key, and elements with equal keys
  keep their original order (Python's sort is stable also under \<open>reverse=True\<close>).
\<close>

definition sorted_reverse :: "('a \<Rightarrow> real) \<Rightarrow> 'a list \<Rightarrow> 'a list" where
  "sorted_reverse key xs = sort_key (\<lambda>x. - key x) xs"

text \<open>
  A list comprehension whose element expression can raise: the values in order, or the
  first exception.
\<close>

fun comprehension :: "(error + 'a) list \<Rightarrow> error + 'a list" where
  "comprehension [] = Inr []"
| "comprehension (r # rs) =
     (case r of
        Inl e \<Rightarrow> Inl e
      | Inr v \<Rightarrow> (case comprehension rs of Inl e \<Rightarrow> Inl e | Inr vs \<Rightarrow> Inr (v # vs)))"

text \<open>
  A \<open>for\<close> loop over a sequence whose body updates the loop state and can raise.
\<close>

fun for_each :: "('i \<Rightarrow> 's \<Rightarrow> error + 's) \<Rightarrow> 'i list \<Rightarrow> 's \<Rightarrow> error + 's" where
  "for_each body [] s = Inr s"
| "for_each body (x # xs) s =
     (case body x s of Inl e \<Rightarrow> Inl e | Inr s' \<Rightarrow> for_each body xs s')"

section \<open>training/recommender.py\<close>

text \<open>
  The two module globals after \<open>_load_model\<close>: the title column of \<open>_new_df\<close> (row
  \<open>i\<close> of the frame has index label \<open>i\<close>) and the matrix \<open>_similarity\<close> as its list
  of rows.
\<close>

record model =
  titles :: "string list"
  similarity :: "real list list"

text \<open>\<open>_new_df[_new_df["title"] == movie]\<close>: the rows whose title equals the query, with
  their index labels, in frame order.\<close>

definition match :: "string list \<Rightarrow> string \<Rightarrow> (nat \<times> string) list" where
  "match ts movie = filter (\<lambda>r. snd r = movie) (enumerate 0 ts)"

text \<open>The local \<open>ranked\<close>:
  \<open>sorted(enumerate(distances), key=lambda x: x[1], reverse=True)[1 : top_k + 1]\<close>.\<close>

definition ranked :: "real list \<Rightarrow> int \<Rightarrow> (nat \<times> real) list" where
  "ranked distances top_k =
     py_slice 1 (top_k + 1) (sorted_reverse snd (enumerate 0 distances))"

text \<open>\<open>_new_df.iloc[i].title\<close> for a position \<open>i \<ge> 0\<close>.\<close>

definition iloc_title :: "string list \<Rightarrow> nat \<Rightarrow> error + string" where
  "iloc_title ts i = (if i < length ts then Inr (ts ! i) else Inl IndexError)"

text \<open>The comprehension \<open>[_new_df.iloc[i].title for i, _ in ranked]\<close>; the first
  exception ends it.\<close>

definition ranked_titles :: "string list \<Rightarrow> (nat \<times> real) list \<Rightarrow> error + string list" where
  "ranked_titles ts rs = comprehension (map (\<lambda>r. iloc_title ts (fst r)) rs)"

definition not_found_message :: "string \<Rightarrow> string" where
  "not_found_message movie = ''Movie not found: '' @ [CHR 0x27] @ movie @ [CHR 0x27]"

definition recommend :: "model \<Rightarrow> string \<Rightarrow> int \<Rightarrow> error + string list" where
  "recommend m movie top_k =
     (case match (titles m) movie of
        [] \<Rightarrow> Inr [not_found_message movie]
      | r # _ \<Rightarrow>
          (let movie_index = fst r in
           if movie_index < length (similarity m)
           then ranked_titles (titles m) (ranked (similarity m ! movie_index) top_k)
           else Inl IndexError))"

section \<open>evaluation/metrics.py\<close>

subsection \<open>Tag sets and relevance\<close>

text \<open>
  The functions are annotated \<open>str\<close> but test their argument with \<open>isinstance\<close>, so
  the argument is any Python value. A \<^typ>\<open>char\<close> is one code point below 256 (Latin-1);
  strings holding code points from 256 on are outside the model. Whitespace is what
  \<open>str.isspace\<close>, \<open>str.strip\<close> and \<open>str.split\<close> accept in that range: U+0009..U+000D,
  U+001C..U+0020, U+0085 and U+00A0. \<open>str.lower\<close> maps \<open>A..Z\<close> and U+00C0..U+00DE
  (without the multiplication sign U+00D7) to the code point 32 higher.
\<close>

datatype pyval = PyStr string | PyNone | PyFloat real | PyNaN

definition py_isspace :: "char \<Rightarrow> bool" where
  "py_isspace c =
     (let n = (of_char c :: nat)
      in (9 \<le> n \<and> n \<le> 13) \<or> (28 \<le> n \<and> n \<le> 32) \<or> n = 133 \<or> n = 160)"

definition char_lower :: "char \<Rightarrow> char" where
  "char_lower c =
     (let n = (of_char c :: nat)
      in if (65 \<le> n \<and> n \<le> 90) \<or> (192 \<le> n \<and> n \<le> 222 \<and> n \<noteq> 215)
         then char_of (n + 32) else c)"

definition str_lower :: "string \<Rightarrow> string" where
  "str_lower s = map char_lower s"

definition str_strip :: "string \<Rightarrow> string" where
  "str_strip s = rev (dropWhile py_isspace (rev (dropWhile py_isspace s)))"

text \<open>\<open>s.split()\<close>: the maximal runs of non-whitespace characters, scanned left to right;
  \<open>cur\<close> is the run being read.\<close>

fun split_from :: "string \<Rightarrow> string \<Rightarrow> string list" where
  "split_from cur [] = (if cur = [] then [] else [cur])"
| "split_from cur (c # cs) =
     (if py_isspace c
      then (if cur = [] then split_from [] cs else cur # split_from [] cs)
      else split_from (cur @ [c]) cs)"

definition str_split :: "string \<Rightarrow> string list" where
  "str_split s = split_from [] s"

definition isinstance_str :: "pyval \<Rightarrow> bool" where
  "isinstance_str v = (case v of PyStr _ \<Rightarrow> True | _ \<Rightarrow> False)"

text \<open>\<open>tags.strip()\<close> and \<open>tags.split()\<close> on an arbitrary value: only a \<open>str\<close> has the
  methods.\<close>

definition method_strip :: "pyval \<Rightarrow> error + string" where
  "method_strip v = (case v of PyStr s \<Rightarrow> Inr (str_strip s) | _ \<Rightarrow> Inl AttributeError)"

definition method_split :: "pyval \<Rightarrow> error + string list" where
  "method_split v = (case v of PyStr s \<Rightarrow> Inr (str_split s) | _ \<Rightarrow> Inl AttributeError)"

text \<open>\<open>_tag_set\<close>; the \<open>or\<close> of its guard evaluates \<open>tags.strip()\<close> only when the
  \<open>isinstance\<close> test has passed.\<close>

definition tag_set :: "pyval \<Rightarrow> error + string set" where
  "tag_set tags =
     (if \<not> isinstance_str tags then Inr {}
      else case method_strip tags of
        Inl e \<Rightarrow> Inl e
      | Inr stripped \<Rightarrow>
          if stripped = [] then Inr {}
          else case method_split tags of
            Inl e \<Rightarrow> Inl e
          | Inr ts \<Rightarrow>
              Inr (set (map (\<lambda>t. str_lower (str_strip t))
                            (filter (\<lambda>t. str_strip t \<noteq> []) ts))))"

definition relevance_by_tag_overlap :: "pyval \<Rightarrow> pyval \<Rightarrow> int \<Rightarrow> error + bool" where
  "relevance_by_tag_overlap query_tags candidate_tags min_common =
     (case tag_set query_tags of
        Inl e \<Rightarrow> Inl e
      | Inr a \<Rightarrow>
          (case tag_set candidate_tags of
             Inl e \<Rightarrow> Inl e
           | Inr b \<Rightarrow> Inr (min_common \<le> int (card (a \<inter> b)))))"

definition relevance_score_tag_overlap :: "pyval \<Rightarrow> pyval \<Rightarrow> error + real" where
  "relevance_score_tag_overlap query_tags candidate_tags =
     (case tag_set query_tags of
        Inl e \<Rightarrow> Inl e
      | Inr a \<Rightarrow>
          (case tag_set candidate_tags of
             Inl e \<Rightarrow> Inl e
           | Inr b \<Rightarrow>
               if a = {} \<or> b = {} then Inr 0
               else Inr (real (card (a \<inter> b)) / real (card (a \<union> b)))))"

subsection \<open>Rank metrics\<close>

text \<open>\<open>k or len(recommended)\<close> for \<open>k: Optional[int]\<close>: \<open>None\<close> and \<open>0\<close> are both
  falsy.\<close>

definition k_or_len :: "int option \<Rightarrow> 'a list \<Rightarrow> int" where
  "k_or_len k recommended =
     (case k of None \<Rightarrow> int (length recommended)
              | Some v \<Rightarrow> if v = 0 then int (length recommended) else v)"

definition precision_at_k :: "int list \<Rightarrow> int list \<Rightarrow> int option \<Rightarrow> real" where
  "precision_at_k recommended relevant k0 =
     (let k = k_or_len k0 recommended;
          rec_k = set (py_slice 0 k recommended);
          rel = set relevant
      in if k = 0 then 0 else real (card (rec_k \<inter> rel)) / real_of_int k)"

definition dcg_at_k :: "real list \<Rightarrow> int \<Rightarrow> real" where
  "dcg_at_k relevance_grades k =
     (let grades = py_slice 0 k relevance_grades
      in if grades = [] then 0
         else sum_list (map (\<lambda>p. snd p / log 2 (real (fst p) + 2)) (enumerate 0 grades)))"

definition ndcg_at_k :: "int list \<Rightarrow> (int \<Rightarrow> real) \<Rightarrow> int option \<Rightarrow> real" where
  "ndcg_at_k recommended relevance_fn k0 =
     (let k = k_or_len k0 recommended;
          rec_k = py_slice 0 k recommended;
          grades = map relevance_fn rec_k;
          idcg_grades =
            py_slice 0 k
              (sorted_reverse (\<lambda>g. g) (map (\<lambda>i. relevance_fn (int i)) [0..<length recommended]));
          dcg = dcg_at_k grades k;
          idcg = dcg_at_k idcg_grades k
      in if idcg \<le> 0 then 0 else dcg / idcg)"

text \<open>
  The specification's \<open>ndcgAtK\<close>, written from its words for comparison with
  \<open>ndcg_at_k\<close>: the ideal grades are the relevance grades of all catalog items
  \<open>0 .. catalog_size - 1\<close>, sorted descending, first \<open>k\<close>; 0 when the ideal DCG is \<open>\<le> 0\<close>.
\<close>

definition ndcgAtK_spec :: "nat \<Rightarrow> int list \<Rightarrow> (int \<Rightarrow> real) \<Rightarrow> int \<Rightarrow> real" where
  "ndcgAtK_spec catalog_size recommended relevanceFn k =
     (let grades = map relevanceFn (py_slice 0 k recommended);
          ideal =
            py_slice 0 k
              (sorted_reverse (\<lambda>g. g) (map (\<lambda>i. relevanceFn (int i)) [0..<catalog_size]));
          idcg = dcg_at_k ideal k
      in if idcg \<le> 0 then 0 else dcg_at_k grades k / idcg)"

subsection \<open>Coverage and diversity\<close>

definition catalog_coverage :: "int list list \<Rightarrow> int \<Rightarrow> real" where
  "catalog_coverage all_recommendations catalog_size =
     (if catalog_size = 0 then 0
      else real (card (fold (\<lambda>rec_list covered. covered \<union> set rec_list) all_recommendations {}))
           / real_of_int catalog_size)"

text \<open>
  NumPy indexing along an axis of length \<open>n\<close>: an index in \<open>-n .. -1\<close> counts from the end,
  one outside \<open>-n .. n-1\<close> raises IndexError. \<open>similarity_matrix[ii, jj]\<close> reads a matrix
  given as its list of rows.
\<close>

definition np_index :: "nat \<Rightarrow> int \<Rightarrow> error + nat" where
  "np_index n i =
     (if - int n \<le> i \<and> i < int n then Inr (nat (if i < 0 then i + int n else i))
      else Inl IndexError)"

definition matrix_item :: "real list list \<Rightarrow> int \<Rightarrow> int \<Rightarrow> error + real" where
  "matrix_item m ii jj =
     (case np_index (length m) ii of
        Inl e \<Rightarrow> Inl e
      | Inr r \<Rightarrow>
          (case np_index (length (m ! r)) jj of
             Inl e \<Rightarrow> Inl e
           | Inr c \<Rightarrow> Inr (m ! r ! c)))"

text \<open>The body of the inner loop of \<open>intra_list_diversity\<close>, on the state
  \<open>(total, count)\<close>.\<close>

definition diversity_step ::
  "real list list \<Rightarrow> int list \<Rightarrow> nat \<Rightarrow> nat \<Rightarrow> real \<times> nat \<Rightarrow> error + real \<times> nat" where
  "diversity_step similarity_matrix recommended_indices i j s =
     (case matrix_item similarity_matrix (recommended_indices ! i) (recommended_indices ! j) of
        Inl e \<Rightarrow> Inl e
      | Inr sim \<Rightarrow> Inr (fst s + (1 - sim), snd s + 1))"

definition intra_list_diversity :: "real list list \<Rightarrow> int list \<Rightarrow> error + real" where
  "intra_list_diversity similarity_matrix recommended_indices =
     (if length recommended_indices < 2 then Inr 0
      else
        let n = length recommended_indices in
        case for_each
               (\<lambda>i. for_each (diversity_step similarity_matrix recommended_indices i) [i + 1..<n])
               [0..<n] (0, 0) of
          Inl e \<Rightarrow> Inl e
        | Inr s \<Rightarrow> Inr (if snd s \<noteq> 0 then fst s / real (snd s) else 0))"

definition average_diversity :: "real list list \<Rightarrow> int list list \<Rightarrow> error + real" where
  "average_diversity similarity_matrix all_recommendations =
     (if all_recommendations = [] then Inr 0
      else
        case comprehension
               (map (intra_list_diversity similarity_matrix)
                    (filter (\<lambda>rec. 2 \<le> length rec) all_recommendations)) of
          Inl e \<Rightarrow> Inl e
        | Inr divs \<Rightarrow> Inr (if divs \<noteq> [] then sum_list divs / real (length divs) else 0))"

section \<open>Predicates used in the statements\<close>

text \<open>The order of two entries \<open>(index, similarity)\<close> in a ranking: higher similarity
  first, and for equal similarity the lower index first.\<close>

definition ranks_before :: "nat \<times> real \<Rightarrow> nat \<times> real \<Rightarrow> bool" where
  "ranks_before x y = (snd y < snd x \<or> (snd x = snd y \<and> fst x < fst y))"

text \<open>A value with no tags: anything that is not a string, and a string of whitespace only
  (the empty string included).\<close>

definition no_tags :: "pyval \<Rightarrow> bool" where
  "no_tags v = (case v of PyStr s \<Rightarrow> list_all py_isspace s | _ \<Rightarrow> True)"

text \<open>An \<open>N \<times> N\<close> matrix, a matrix with every entry in \<open>[0, 1]\<close>, and a list of indices
  that NumPy accepts on both axes of the matrix (\<open>-N \<le> i < N\<close>).\<close>

definition square_matrix :: "real list list \<Rightarrow> bool" where
  "square_matrix m = list_all (\<lambda>row. length row = length m) m"

definition unit_entries :: "real list list \<Rightarrow> bool" where
  "unit_entries m = list_all (list_all (\<lambda>x. 0 \<le> x \<and> x \<le> 1)) m"

definition valid_indices :: "real list list \<Rightarrow> int list \<Rightarrow> bool" where
  "valid_indices m idx = list_all (\<lambda>i. - int (length m) \<le> i \<and> i < int (length m)) idx"

text \<open>The invariant of the loops of \<open>intra_list_diversity\<close> on \<open>(total, count)\<close>.\<close>

definition mean_bounded :: "real \<times> nat \<Rightarrow> bool" where
  "mean_bounded s = (0 \<le> fst s \<and> fst s \<le> real (snd s))"

section \<open>Properties of the ranker\<close>

lemma match_empty: "movie \<notin> set ts \<Longrightarrow> match ts movie = []"
proof -
  assume absent: "movie \<notin> set ts"
  have "snd r \<noteq> movie" if "r \<in> set (enumerate 0 ts)" for r
  proof -
    from that have "snd r \<in> set (map snd (enumerate 0 ts))" by (simp del: map_snd_enumerate)
    with absent show ?thesis by auto
  qed
  thus ?thesis by (simp add: match_def filter_empty_conv)
qed

text \<open>
  Claim C1 (the ranked list never holds the query's own index). The slice \<open>[1 : top_k + 1]\<close>
  drops whatever sorts first, and the stable sort puts a lower-indexed item with the same
  similarity before the query. On a catalog of two items with identical tags (every
  similarity 1), queried by the second title with \<open>top_k = 1\<close>, \<open>recommend\<close> returns the
  query title itself: the ranked indices are \<open>[1]\<close>, the query's own index.
\<close>

theorem recommend_returns_query_on_tie:
  "recommend \<lparr>titles = [''A'', ''B''], similarity = [[1, 1], [1, 1]]\<rparr> ''B'' 1 = Inr [''B'']
   \<and> map fst (ranked [1, 1] 1) = [1]"
  by (simp add: recommend_def match_def ranked_titles_def ranked_def sorted_reverse_def
      py_slice_def iloc_title_def)

text \<open>
  Claim C5 (an unknown title gives a typed NotFound result, distinguishable from a
  recommendation list). As amended: for a title that is not in the catalog \<open>recommend\<close>
  raises nothing and returns the one-element list holding the message
  \<open>Movie not found: '<title>'\<close>, a value of the same type as a list of recommended titles.
\<close>

theorem recommend_unknown_title:
  "movie \<notin> set (titles m) \<Longrightarrow> recommend m movie top_k = Inr [not_found_message movie]"
  by (simp add: recommend_def match_empty)

theorem recommend_unknown_title_witness:
  "''C'' \<notin> set (titles \<lparr>titles = [''A'', ''B''], similarity = [[1, 1], [1, 1]]\<rparr>)
   \<and> recommend \<lparr>titles = [''A'', ''B''], similarity = [[1, 1], [1, 1]]\<rparr> ''C'' 5
       = Inr [''Movie not found: '' @ [CHR 0x27] @ ''C'' @ [CHR 0x27]]"
  using recommend_unknown_title
    [of "''C''" "\<lparr>titles = [''A'', ''B''], similarity = [[1, 1], [1, 1]]\<rparr>" 5]
  by (simp add: not_found_message_def)

text \<open>
  The claim as stated fails: in a catalog whose second title is spelled like the message for
  \<open>B\<close>, the successful recommendation for the known title \<open>A\<close> and the answer for the
  unknown title \<open>B\<close> are the same value.
\<close>

theorem recommend_not_found_indistinguishable:
  "''A'' \<in> set (titles \<lparr>titles = [''A'', not_found_message ''B''],
                           similarity = [[1, 1 / 2], [1 / 2, 1]]\<rparr>)
   \<and> ''B'' \<notin> set (titles \<lparr>titles = [''A'', not_found_message ''B''],
                             similarity = [[1, 1 / 2], [1 / 2, 1]]\<rparr>)
   \<and> recommend \<lparr>titles = [''A'', not_found_message ''B''],
                 similarity = [[1, 1 / 2], [1 / 2, 1]]\<rparr> ''A'' 1
     = recommend \<lparr>titles = [''A'', not_found_message ''B''],
                   similarity = [[1, 1 / 2], [1 / 2, 1]]\<rparr> ''B'' 1"
  by (simp add: recommend_def match_def ranked_titles_def ranked_def sorted_reverse_def
      py_slice_def iloc_title_def not_found_message_def)

lemma insort_ranks_before:
  "sorted_wrt ranks_before ys \<Longrightarrow> \<forall>y\<in>set ys. fst x < fst y \<Longrightarrow>
     sorted_wrt ranks_before (insort_key (\<lambda>p. - snd p) x ys)"
proof (induction ys)
  case Nil
  then show ?case by simp
next
  case (Cons y ys)
  show ?case
  proof (cases "snd y \<le> snd x")
    case True
    have "ranks_before x z" if "z \<in> set (y # ys)" for z
    proof -
      from that Cons.prems(1) have "snd z \<le> snd y"
        by (auto simp: ranks_before_def)
      with True that Cons.prems(2) show ?thesis
        by (auto simp: ranks_before_def)
    qed
    with True Cons.prems(1) show ?thesis by simp
  next
    case False
    hence "ranks_before y x" by (simp add: ranks_before_def)
    with False Cons show ?thesis by (auto simp: set_insort_key)
  qed
qed

lemma sorted_reverse_ranks_before:
  "sorted_wrt (\<lambda>x y. fst x < fst y) ps \<Longrightarrow> sorted_wrt ranks_before (sorted_reverse snd ps)"
proof (induction ps)
  case Nil
  then show ?case by (simp add: sorted_reverse_def)
next
  case (Cons p ps)
  hence "sorted_wrt ranks_before (sort_key (\<lambda>x. - snd x) ps)"
    and "\<forall>y\<in>set (sort_key (\<lambda>x. - snd x) ps). fst p < fst y"
    by (simp_all add: sorted_reverse_def)
  thus ?case by (simp add: sorted_reverse_def insort_ranks_before)
qed

lemma enumerate_increasing: "sorted_wrt (\<lambda>x y. fst x < fst y) (enumerate n xs)"
proof -
  have "sorted_wrt (<) (map fst (enumerate n xs))" by simp
  thus ?thesis by (simp only: sorted_wrt_map)
qed

lemma sorted_entries_ranks_before:
  "sorted_wrt ranks_before (sorted_reverse snd (enumerate 0 distances))"
  by (rule sorted_reverse_ranks_before [OF enumerate_increasing])

lemma py_slice_take_drop: "\<exists>a n. py_slice start stop xs = take n (drop a xs)"
  unfolding py_slice_def Let_def by blast

lemma ranked_ranks_before: "sorted_wrt ranks_before (ranked distances top_k)"
proof -
  obtain a n where "ranked distances top_k = take n (drop a (sorted_reverse snd (enumerate 0 distances)))"
    unfolding ranked_def using py_slice_take_drop by blast
  thus ?thesis
    by (simp add: sorted_wrt_take sorted_wrt_drop sorted_entries_ranks_before)
qed

lemma set_py_slice: "set (py_slice start stop xs) \<subseteq> set xs"
  unfolding py_slice_def Let_def by (meson set_take_subset set_drop_subset subset_trans)

lemma ranked_entries:
  "p \<in> set (ranked distances top_k) \<Longrightarrow> fst p < length distances \<and> snd p = distances ! fst p"
proof -
  assume "p \<in> set (ranked distances top_k)"
  hence "p \<in> set (sorted_reverse snd (enumerate 0 distances))"
    unfolding ranked_def by (rule subsetD [OF set_py_slice])
  thus ?thesis by (simp add: sorted_reverse_def in_set_enumerate_eq)
qed

lemma ranked_ties_in_index_order:
  assumes "i < j" and "distances ! i = distances ! j"
    and "i \<in> fst ` set (ranked distances top_k)" and "j \<in> fst ` set (ranked distances top_k)"
  shows "\<exists>a b. a < b \<and> b < length (ranked distances top_k)
           \<and> fst (ranked distances top_k ! a) = i \<and> fst (ranked distances top_k ! b) = j"
proof -
  let ?r = "ranked distances top_k"
  from assms(3) obtain a where a: "a < length ?r" "fst (?r ! a) = i"
    by (auto simp: in_set_conv_nth)
  from assms(4) obtain b where b: "b < length ?r" "fst (?r ! b) = j"
    by (auto simp: in_set_conv_nth)
  from a b have vals: "snd (?r ! a) = distances ! i" "snd (?r ! b) = distances ! j"
    using ranked_entries [of "?r ! a" distances top_k] ranked_entries [of "?r ! b" distances top_k]
    by simp_all
  have "a < b"
  proof (rule ccontr)
    assume "\<not> a < b"
    with a b assms(1) have "b < a" by (cases "a = b") auto
    with a(1) have "ranks_before (?r ! b) (?r ! a)"
      using ranked_ranks_before [of distances top_k] by (simp add: sorted_wrt_iff_nth_less)
    with vals a b assms(1,2) show False by (simp add: ranks_before_def)
  qed
  with a b show ?thesis by blast
qed

lemma length_sorted_entries:
  "length (sorted_reverse snd (enumerate 0 distances)) = length distances"
  by (simp add: sorted_reverse_def)

lemma ranked_empty: "top_k = 0 \<or> top_k = - 1 \<Longrightarrow> ranked distances top_k = []"
  by (auto simp: ranked_def py_slice_def Let_def)

lemma ranked_negative:
  "top_k \<le> - 2 \<Longrightarrow> length (ranked distances top_k) = nat (int (length distances) + top_k)"
  by (auto simp: ranked_def py_slice_def Let_def length_sorted_entries min_def max_def)

lemma ranked_all:
  "int (length distances) - 1 \<le> top_k \<Longrightarrow>
     ranked distances top_k = tl (sorted_reverse snd (enumerate 0 distances))"
proof -
  assume k: "int (length distances) - 1 \<le> top_k"
  let ?s = "sorted_reverse snd (enumerate 0 distances)"
  have len: "length ?s = length distances" by (rule length_sorted_entries)
  show ?thesis
  proof (cases "distances = []")
    case True
    then show ?thesis by (simp add: ranked_def py_slice_def sorted_reverse_def)
  next
    case False
    hence "1 \<le> int (length ?s)" using len by (cases distances) auto
    with k len have "py_slice 1 (top_k + 1) ?s = drop 1 ?s"
      by (auto simp: py_slice_def Let_def min_def)
    thus ?thesis by (simp add: ranked_def drop_Suc)
  qed
qed

lemma set_sorted_entries:
  "set (sorted_reverse snd (enumerate 0 distances)) = set (enumerate 0 distances)"
  by (simp add: sorted_reverse_def)

lemma distinct_sorted_entries:
  "distinct (map fst (sorted_reverse snd (enumerate 0 distances)))"
proof -
  have "distinct (map fst (enumerate 0 distances))" by simp
  thus ?thesis by (simp only: distinct_map sorted_reverse_def distinct_sort set_sort) 
qed

lemma indices_sorted_entries:
  "set (map fst (sorted_reverse snd (enumerate 0 distances))) = {0..<length distances}"
proof -
  have "set (map fst (sorted_reverse snd (enumerate 0 distances)))
      = set (map fst (enumerate 0 distances))"
    by (simp only: set_map set_sorted_entries)
  thus ?thesis by simp
qed

lemma query_sorts_first:
  assumes q: "q < length distances"
    and top: "\<forall>i<length distances. distances ! i \<le> distances ! q"
    and strict: "\<forall>i<q. distances ! i < distances ! q"
  shows "\<exists>rest. sorted_reverse snd (enumerate 0 distances) = (q, distances ! q) # rest"
proof -
  let ?s = "sorted_reverse snd (enumerate 0 distances)"
  from q have mem: "(q, distances ! q) \<in> set ?s"
    by (simp add: set_sorted_entries in_set_enumerate_eq)
  then obtain x rest where s: "?s = x # rest" by (cases ?s) auto
  have "x \<in> set (enumerate 0 distances)"
    using s set_sorted_entries [of distances] by (metis list.set_intros(1))
  hence x: "fst x < length distances" "snd x = distances ! fst x"
    by (simp_all add: in_set_enumerate_eq)
  have "x = (q, distances ! q)"
  proof (rule ccontr)
    assume ne: "x \<noteq> (q, distances ! q)"
    with mem s have "(q, distances ! q) \<in> set rest" by auto
    moreover have "sorted_wrt ranks_before (x # rest)"
      using sorted_entries_ranks_before [of distances] s by simp
    ultimately have "ranks_before x (q, distances ! q)" by simp
    hence "distances ! q < distances ! fst x \<or> (distances ! fst x = distances ! q \<and> fst x < q)"
      using x by (simp add: ranks_before_def)
    with top strict x(1) show False by (metis less_irrefl not_le)
  qed
  with s show ?thesis by blast
qed

lemma ranked_all_others:
  assumes q: "q < length distances"
    and k: "int (length distances) - 1 \<le> top_k"
    and top: "\<forall>i<length distances. distances ! i \<le> distances ! q"
    and strict: "\<forall>i<q. distances ! i < distances ! q"
  shows "set (map fst (ranked distances top_k)) = {0..<length distances} - {q}"
proof -
  let ?s = "sorted_reverse snd (enumerate 0 distances)"
  from query_sorts_first [OF q top strict] obtain rest where s: "?s = (q, distances ! q) # rest"
    by blast
  hence r: "ranked distances top_k = rest" using ranked_all [OF k] by simp
  have "set (map fst ?s) = {0..<length distances}" by (rule indices_sorted_entries)
  with s have all: "insert q (set (map fst rest)) = {0..<length distances}" by simp
  from distinct_sorted_entries [of distances] s have "q \<notin> set (map fst rest)" by simp
  with all r show ?thesis by auto
qed

lemma ranked_excludes_query_when_first:
  assumes "q < length distances"
    and "\<forall>i<length distances. distances ! i \<le> distances ! q"
    and "\<forall>i<q. distances ! i < distances ! q"
  shows "q \<notin> fst ` set (ranked distances top_k)"
proof -
  let ?s = "sorted_reverse snd (enumerate 0 distances)"
  from query_sorts_first [OF assms] obtain rest where s: "?s = (q, distances ! q) # rest"
    by blast
  have "py_slice 1 (top_k + 1) ?s = take (nat ((if top_k + 1 < 0
            then max (top_k + 1 + int (length ?s)) 0 else min (top_k + 1) (int (length ?s))) - 1))
          (drop 1 ?s)"
    using s by (simp add: py_slice_def Let_def min_def)
  hence "set (ranked distances top_k) \<subseteq> set rest"
    using s by (simp add: ranked_def set_take_subset)
  moreover from distinct_sorted_entries [of distances] s have "q \<notin> fst ` set rest" by simp
  ultimately show ?thesis by blast
qed

lemma ranked_after_query:
  assumes "q < length distances"
    and "\<forall>i<length distances. distances ! i \<le> distances ! q"
    and "\<forall>i<q. distances ! i < distances ! q"
  shows "\<exists>rest n. sorted_reverse snd (enumerate 0 distances) = (q, distances ! q) # rest
           \<and> ranked distances top_k = take n rest"
proof -
  let ?s = "sorted_reverse snd (enumerate 0 distances)"
  from query_sorts_first [OF assms] obtain rest where s: "?s = (q, distances ! q) # rest"
    by blast
  have "py_slice 1 (top_k + 1) ?s = take (nat ((if top_k + 1 < 0
            then max (top_k + 1 + int (length ?s)) 0 else min (top_k + 1) (int (length ?s))) - 1))
          (drop 1 ?s)"
    using s by (simp add: py_slice_def Let_def min_def)
  then obtain n where n: "py_slice 1 (top_k + 1) ?s = take n (drop 1 ?s)" ..
  have "ranked distances top_k = take n (drop 1 ?s)" by (simp only: ranked_def n)
  also have "\<dots> = take n rest" by (simp add: s)
  finally show ?thesis using s by blast
qed

lemma ranked_ties_when_query_first:
  assumes q: "q < length distances"
    and top: "\<forall>i<length distances. distances ! i \<le> distances ! q"
    and strict: "\<forall>i<q. distances ! i < distances ! q"
    and ij: "i < j" "i \<noteq> q" and tie: "distances ! i = distances ! j"
    and listed: "j \<in> fst ` set (ranked distances top_k)"
  shows "\<exists>a b. a < b \<and> b < length (ranked distances top_k)
           \<and> fst (ranked distances top_k ! a) = i \<and> fst (ranked distances top_k ! b) = j"
proof -
  let ?s = "sorted_reverse snd (enumerate 0 distances)"
  from ranked_after_query [OF q top strict, of top_k] obtain rest n where
    s: "?s = (q, distances ! q) # rest" and r: "ranked distances top_k = take n rest" by blast
  from listed obtain b where b: "b < length (take n rest)" "fst (take n rest ! b) = j"
    unfolding r by (auto simp: in_set_conv_nth)
  hence b': "b < n" "b < length rest" "fst (rest ! b) = j" by simp_all
  have "j < length distances"
    using listed ranked_entries [of _ distances top_k] by auto
  with ij(1) have "i < length distances" by simp
  hence "(i, distances ! i) \<in> set ?s"
    by (simp add: set_sorted_entries in_set_enumerate_eq)
  with s ij(2) have "(i, distances ! i) \<in> set rest" by auto
  then obtain a where a: "a < length rest" "rest ! a = (i, distances ! i)"
    by (auto simp: in_set_conv_nth)
  have sorted_rest: "sorted_wrt ranks_before rest"
    using sorted_entries_ranks_before [of distances] s by simp
  have "rest ! b \<in> set ?s" using s b'(2) by simp
  hence vb: "snd (rest ! b) = distances ! j"
    using b'(3) by (simp add: set_sorted_entries in_set_enumerate_eq)
  have "a < b"
  proof (rule ccontr)
    assume "\<not> a < b"
    moreover from a(2) b'(3) ij(1) have "a \<noteq> b" by auto
    ultimately have "b < a" by simp
    with a(1) sorted_rest have "ranks_before (rest ! b) (rest ! a)"
      by (simp add: sorted_wrt_iff_nth_less)
    with a(2) b'(3) vb tie ij(1) show False by (simp add: ranks_before_def)
  qed
  with b' a have "a < b" "b < length (take n rest)" "fst (take n rest ! a) = i"
    "fst (take n rest ! b) = j" by simp_all
  thus ?thesis unfolding r by blast
qed

text \<open>
  Claim C7 (ties are resolved by ascending index: of two tied items the lower index precedes
  the higher in the ranked list). The stable sort does order tied entries by ascending index
  (\<open>ranked_ties_in_index_order\<close>), and when the query's own entry sorts first a listed
  item is preceded by every tied non-query item of lower index
  (\<open>ranked_ties_when_query_first\<close>). But the slice \<open>[1 : top_k + 1]\<close> drops the first
  sorted entry whatever it is: with three items of similarity 1 throughout, queried by
  item 2 with \<open>top_k = 1\<close>, the ranked list is \<open>[1]\<close>; item 0, tied with item 1 and of
  lower index, does not precede it, being cut in place of the query.
\<close>

theorem ranked_drops_tied_lower_index:
  "map fst (ranked [1, 1, 1] 1) = [1]
   \<and> recommend \<lparr>titles = [''A'', ''B'', ''C''],
                 similarity = [[1, 1, 1], [1, 1, 1], [1, 1, 1]]\<rparr> ''C'' 1 = Inr [''B'']"
  by (simp add: recommend_def match_def ranked_titles_def ranked_def sorted_reverse_def
      py_slice_def iloc_title_def)

text \<open>
  Claim C4 (any \<open>k \<le> 0\<close> gives the empty list, any \<open>k \<ge> N - 1\<close> gives all other items).
  As amended, for a query index within the row: \<open>top_k = 0\<close> and \<open>top_k = -1\<close> give the empty
  list; for \<open>top_k \<le> -2\<close> the slice bound \<open>top_k + 1\<close> counts from the end and the list has
  \<open>max(0, N + top_k)\<close> entries; for \<open>top_k \<ge> N - 1\<close> the list has \<open>N - 1\<close> entries, and they
  are exactly the \<open>N - 1\<close> other items whenever the query's own entry sorts first (its
  similarity is maximal in the row and strictly greater than that of every lower index).
\<close>

theorem ranked_extreme_k:
  assumes "q < length distances"
  shows "(top_k = 0 \<or> top_k = - 1 \<longrightarrow> ranked distances top_k = [])
    \<and> (top_k \<le> - 2 \<longrightarrow> length (ranked distances top_k) = nat (int (length distances) + top_k))
    \<and> (int (length distances) - 1 \<le> top_k \<longrightarrow>
         length (ranked distances top_k) = length distances - 1
         \<and> ((\<forall>i<length distances. distances ! i \<le> distances ! q)
              \<and> (\<forall>i<q. distances ! i < distances ! q)
             \<longrightarrow> set (map fst (ranked distances top_k)) = {0..<length distances} - {q}))"
proof (intro conjI impI)
  show "ranked distances top_k = []" if "top_k = 0 \<or> top_k = - 1"
    using that by (rule ranked_empty)
  show "length (ranked distances top_k) = nat (int (length distances) + top_k)" if "top_k \<le> - 2"
    using that by (rule ranked_negative)
  show "length (ranked distances top_k) = length distances - 1"
    if "int (length distances) - 1 \<le> top_k"
    using ranked_all [OF that] by (simp add: length_sorted_entries)
  show "set (map fst (ranked distances top_k)) = {0..<length distances} - {q}"
    if "int (length distances) - 1 \<le> top_k"
      and "(\<forall>i<length distances. distances ! i \<le> distances ! q)
              \<and> (\<forall>i<q. distances ! i < distances ! q)"
    using ranked_all_others [OF assms that(1)] that(2) by blast
qed

theorem ranked_extreme_k_witness:
  "(0::nat) < length [1, 1 / 2, 3 / 4 :: real]
   \<and> ranked [1, 1 / 2, 3 / 4] 0 = [] \<and> ranked [1, 1 / 2, 3 / 4] (- 1) = []
   \<and> length (ranked [1, 1 / 2, 3 / 4] (- 2)) = 1
   \<and> set (map fst (ranked [1, 1 / 2, 3 / 4] 2)) = {1, 2}
   \<and> set (map fst (ranked [1, 1 / 2, 3 / 4] 7)) = {1, 2}"
  using ranked_extreme_k [of 0 "[1, 1 / 2, 3 / 4]" 0] ranked_extreme_k [of 0 "[1, 1 / 2, 3 / 4]" "- 1"]
    ranked_extreme_k [of 0 "[1, 1 / 2, 3 / 4]" "- 2"] ranked_extreme_k [of 0 "[1, 1 / 2, 3 / 4]" 2]
    ranked_extreme_k [of 0 "[1, 1 / 2, 3 / 4]" 7]
  by (auto simp: less_Suc_eq nth_Cons')

text \<open>
  The claim as stated fails for \<open>k = -2\<close>: on a catalog of three items queried by item 0 the
  slice \<open>[1 : -1]\<close> keeps the middle entry of the sorted list.
\<close>

theorem ranked_negative_k_nonempty:
  "(0::nat) < length [1, 1 / 2, 3 / 4 :: real] \<and> (- 2 :: int) \<le> 0
   \<and> ranked [1, 1 / 2, 3 / 4] (- 2) = [(2, 3 / 4)]"
  by (simp add: ranked_def sorted_reverse_def py_slice_def)

section \<open>Properties of the rank metrics\<close>

lemma py_slice_prefix: "0 < k \<Longrightarrow> py_slice 0 k xs = take (nat k) xs"
  by (auto simp: py_slice_def Let_def min_def)

lemma precision_at_k_positive:
  "0 < k \<Longrightarrow> precision_at_k recommended relevant (Some k) =
     real (card (set (take (nat k) recommended) \<inter> set relevant)) / real_of_int k"
  by (simp add: precision_at_k_def k_or_len_def py_slice_prefix)

lemma precision_at_k_empty:
  "k = None \<or> k = Some 0 \<Longrightarrow> precision_at_k [] relevant k = 0"
  by (auto simp: precision_at_k_def k_or_len_def)

text \<open>
  Claim C3 (precision is 0 when \<open>k = 0\<close>). The guard \<open>if k == 0: return 0.0\<close> comes after
  \<open>k = k or len(recommended)\<close>, which has already replaced an explicit 0 by the length of
  the list: with one recommended item that is relevant, \<open>k = 0\<close> gives precision 1.
\<close>

theorem precision_at_k_explicit_zero:
  "precision_at_k [1] [1] (Some 0) = 1"
  by (simp add: precision_at_k_def k_or_len_def py_slice_def)

text \<open>
  Claim C2 (the ideal grades of NDCG are those of all catalog items). \<open>ndcg_at_k\<close> takes
  its ideal grades from \<open>relevance_fn(i) for i in range(len(recommended))\<close>, the items
  numbered like the positions of the list. With the single recommendation 5 of grade 1 in a
  catalog of six items where item 0 has grade 1/2, the code returns 2, and the quotient the
  specification describes is 1.
\<close>

theorem ndcg_at_k_ideal_from_positions:
  "ndcg_at_k [5] (\<lambda>i. if i = 5 then 1 else if i = 0 then 1 / 2 else 0) (Some 1) = 2
   \<and> ndcgAtK_spec 6 [5] (\<lambda>i. if i = 5 then 1 else if i = 0 then 1 / 2 else 0) 1 = 1"
  by (simp add: ndcg_at_k_def ndcgAtK_spec_def k_or_len_def py_slice_def sorted_reverse_def
      dcg_at_k_def upt_rec)

section \<open>Properties of tag sets and relevance\<close>

lemma split_from_tokens:
  "\<forall>c\<in>set cur. \<not> py_isspace c \<Longrightarrow>
     \<forall>t\<in>set (split_from cur s). t \<noteq> [] \<and> (\<forall>c\<in>set t. \<not> py_isspace c)"
proof (induction s arbitrary: cur)
  case Nil
  then show ?case by simp
next
  case (Cons c cs)
  have blank: "\<forall>t\<in>set (split_from [] cs). t \<noteq> [] \<and> (\<forall>c\<in>set t. \<not> py_isspace c)"
    using Cons.IH [of "[]"] by simp
  show ?case
  proof (cases "py_isspace c")
    case True
    with blank Cons.prems show ?thesis by auto
  next
    case False
    with Cons.prems have "\<forall>x\<in>set (cur @ [c]). \<not> py_isspace x" by simp
    from Cons.IH [OF this] False show ?thesis by simp
  qed
qed

lemma split_from_nonempty:
  "cur \<noteq> [] \<or> (\<exists>c\<in>set s. \<not> py_isspace c) \<Longrightarrow> split_from cur s \<noteq> []"
  by (induction s arbitrary: cur) auto

lemma split_from_blank:
  "\<forall>c\<in>set s. py_isspace c \<Longrightarrow> split_from [] s = []"
  by (induction s) auto

lemma str_strip_empty_iff: "str_strip s = [] \<longleftrightarrow> (\<forall>c\<in>set s. py_isspace c)"
proof
  assume "str_strip s = []"
  hence tail: "\<forall>c\<in>set (dropWhile py_isspace s). py_isspace c"
    by (simp add: str_strip_def dropWhile_eq_Nil_conv)
  have "dropWhile py_isspace s = []"
  proof (rule ccontr)
    assume ne: "dropWhile py_isspace s \<noteq> []"
    hence "\<not> py_isspace (hd (dropWhile py_isspace s))" by (rule hd_dropWhile)
    moreover from ne have "hd (dropWhile py_isspace s) \<in> set (dropWhile py_isspace s)" by simp
    ultimately show False using tail by blast
  qed
  thus "\<forall>c\<in>set s. py_isspace c" by (simp add: dropWhile_eq_Nil_conv)
next
  assume "\<forall>c\<in>set s. py_isspace c"
  thus "str_strip s = []"
    by (auto simp: str_strip_def dropWhile_eq_Nil_conv dest: set_dropWhileD)
qed

lemma tag_set_str:
  "str_strip s \<noteq> [] \<Longrightarrow>
     tag_set (PyStr s) =
       Inr (set (map (\<lambda>t. str_lower (str_strip t))
                     (filter (\<lambda>t. str_strip t \<noteq> []) (str_split s))))"
  by (simp add: tag_set_def isinstance_str_def method_strip_def method_split_def)

lemma tag_set_total: "\<exists>a. tag_set v = Inr a \<and> finite a"
  by (cases v) (auto simp: tag_set_def isinstance_str_def method_strip_def method_split_def)

lemma tag_set_not_str: "\<not> isinstance_str v \<Longrightarrow> tag_set v = Inr {}"
  by (simp add: tag_set_def)

lemma tag_set_blank: "\<forall>c\<in>set s. py_isspace c \<Longrightarrow> tag_set (PyStr s) = Inr {}"
  by (simp add: tag_set_def isinstance_str_def method_strip_def str_strip_empty_iff)

lemma tag_set_inhabited:
  assumes "\<exists>c\<in>set s. \<not> py_isspace c"
  shows "\<exists>a. tag_set (PyStr s) = Inr a \<and> finite a \<and> a \<noteq> {}"
proof -
  from assms have "str_split s \<noteq> []"
    by (simp add: str_split_def split_from_nonempty)
  then obtain t where t: "t \<in> set (str_split s)"
    by (cases "str_split s") auto
  hence "t \<noteq> [] \<and> (\<forall>c\<in>set t. \<not> py_isspace c)"
    using split_from_tokens [of "[]" s] by (simp add: str_split_def)
  hence "\<not> (\<forall>c\<in>set t. py_isspace c)" by (cases t) auto
  hence "str_strip t \<noteq> []" by (simp only: str_strip_empty_iff not_False_eq_True)
  with t have kept: "filter (\<lambda>t. str_strip t \<noteq> []) (str_split s) \<noteq> []"
    unfolding filter_empty_conv by blast
  from assms have "str_strip s \<noteq> []"
    unfolding str_strip_empty_iff by blast
  hence "tag_set (PyStr s) =
       Inr (set (map (\<lambda>t. str_lower (str_strip t))
                     (filter (\<lambda>t. str_strip t \<noteq> []) (str_split s))))"
    by (rule tag_set_str)
  with kept show ?thesis by (auto simp: filter_empty_conv)
qed

text \<open>
  Claim C6 (the graded relevance of a tag string with itself). As amended: the score of
  \<open>tags\<close> against itself is 1 when \<open>tags\<close> holds at least one non-whitespace character,
  and 0 when \<open>tags\<close> is empty or consists of whitespace only (whitespace as
  \<open>str.isspace\<close> has it, the no-break space U+00A0 and U+0085 included).
\<close>

theorem self_relevance_score:
  "((\<exists>c\<in>set tags. \<not> py_isspace c) \<longrightarrow>
      relevance_score_tag_overlap (PyStr tags) (PyStr tags) = Inr 1)
   \<and> ((\<forall>c\<in>set tags. py_isspace c) \<longrightarrow>
      relevance_score_tag_overlap (PyStr tags) (PyStr tags) = Inr 0)"
proof (intro conjI impI)
  assume "\<exists>c\<in>set tags. \<not> py_isspace c"
  then obtain a where a: "tag_set (PyStr tags) = Inr a" "finite a" "a \<noteq> {}"
    using tag_set_inhabited by blast
  hence "card a \<noteq> 0" by simp
  with a show "relevance_score_tag_overlap (PyStr tags) (PyStr tags) = Inr 1"
    by (simp add: relevance_score_tag_overlap_def)
next
  assume "\<forall>c\<in>set tags. py_isspace c"
  thus "relevance_score_tag_overlap (PyStr tags) (PyStr tags) = Inr 0"
    by (simp add: relevance_score_tag_overlap_def tag_set_blank)
qed

theorem self_relevance_score_witness:
  "relevance_score_tag_overlap (PyStr ''war drama'') (PyStr ''war drama'') = Inr 1
   \<and> relevance_score_tag_overlap (PyStr []) (PyStr []) = Inr 0
   \<and> relevance_score_tag_overlap (PyStr [CHR 0xA0, CHR 0x85]) (PyStr [CHR 0xA0, CHR 0x85]) = Inr 0"
  using self_relevance_score [of "''war drama''"] self_relevance_score [of "[]"]
    self_relevance_score [of "[CHR 0xA0, CHR 0x85]"]
  by (simp add: py_isspace_def)

text \<open>
  The claim as stated fails: the one-blank string is not empty, and its score against
  itself is 0, not 1.
\<close>

theorem self_relevance_score_blank:
  "'' '' \<noteq> [] \<and> relevance_score_tag_overlap (PyStr '' '') (PyStr '' '') \<noteq> Inr 1"
  by (simp add: relevance_score_tag_overlap_def tag_set_def isinstance_str_def method_strip_def
      str_strip_def py_isspace_def)

lemma no_tags_tag_set: "no_tags v \<Longrightarrow> tag_set v = Inr {}"
  by (cases v) (auto simp: no_tags_def tag_set_blank tag_set_not_str isinstance_str_def list_all_iff)

text \<open>
  Claim C9 (both relevance functions are total, and a value with no tags counts as the
  empty tag set). As amended: neither function raises on any pair of values; when either
  argument is a non-string or a whitespace-only string, the score is 0 and the boolean
  relevance is the truth value of \<open>min_common \<le> 0\<close>, so it is False for every
  \<open>min_common \<ge> 1\<close> (the default 3 included).
\<close>

theorem relevance_total:
  "(\<exists>b. relevance_by_tag_overlap v w min_common = Inr b)
   \<and> (\<exists>r. relevance_score_tag_overlap v w = Inr r)
   \<and> (no_tags v \<or> no_tags w \<longrightarrow>
        relevance_score_tag_overlap v w = Inr 0
        \<and> relevance_by_tag_overlap v w min_common = Inr (min_common \<le> 0))"
proof -
  obtain a b where ab: "tag_set v = Inr a" "tag_set w = Inr b"
    using tag_set_total by blast
  have "a = {} \<or> b = {}" if "no_tags v \<or> no_tags w"
    using that ab no_tags_tag_set by fastforce
  with ab show ?thesis
    by (auto simp: relevance_by_tag_overlap_def relevance_score_tag_overlap_def)
qed

theorem relevance_total_witness:
  "no_tags PyNaN \<and> no_tags (PyStr ''  '') \<and> no_tags (PyStr [CHR 0xA0])
   \<and> relevance_score_tag_overlap PyNaN (PyStr ''war drama'') = Inr 0
   \<and> relevance_by_tag_overlap (PyStr ''war drama'') (PyStr ''  '') 3 = Inr False
   \<and> relevance_by_tag_overlap (PyStr [CHR 0xA0]) (PyStr [CHR 0xA0]) 1 = Inr False"
  using relevance_total [of PyNaN "PyStr ''war drama''" 3]
    relevance_total [of "PyStr ''war drama''" "PyStr ''  ''" 3]
    relevance_total [of "PyStr [CHR 0xA0]" "PyStr [CHR 0xA0]" 1]
  by (simp add: no_tags_def py_isspace_def)

text \<open>
  The claim as stated fails for a threshold of 0: with no common tag at all the boolean
  relevance is True.
\<close>

theorem relevance_by_tag_overlap_zero_threshold:
  "relevance_by_tag_overlap PyNone (PyStr ''war'') 0 = Inr True"
  by (simp add: relevance_by_tag_overlap_def tag_set_def isinstance_str_def method_strip_def
      method_split_def str_strip_def str_split_def py_isspace_def)

section \<open>Properties of coverage and diversity\<close>

lemma covered_fold:
  "fold (\<lambda>rec_list covered. covered \<union> set rec_list) ls s = s \<union> \<Union> (set ` set ls)"
  by (induction ls arbitrary: s) auto

text \<open>
  Claim C8 (catalog coverage is monotone in the recommendation lists). For a catalog size
  that is not negative, the coverage of the lists \<open>ls\<close> is at most the coverage of \<open>ls\<close>
  followed by any further lists.
\<close>

theorem catalog_coverage_mono:
  "0 \<le> catalog_size \<Longrightarrow>
     catalog_coverage ls catalog_size \<le> catalog_coverage (ls @ extra) catalog_size"
proof -
  assume size: "0 \<le> catalog_size"
  let ?c = "\<lambda>xs. fold (\<lambda>rec_list covered. covered \<union> set rec_list) xs ({} :: int set)"
  have "?c ls \<subseteq> ?c (ls @ extra)" by (auto simp: covered_fold)
  moreover have "finite (?c (ls @ extra))" by (simp only: covered_fold) simp
  ultimately have "card (?c ls) \<le> card (?c (ls @ extra))" by (rule card_mono [rotated])
  hence "real (card (?c ls)) \<le> real (card (?c (ls @ extra)))" by simp
  with size show ?thesis
    unfolding catalog_coverage_def by (simp add: divide_right_mono)
qed

theorem catalog_coverage_mono_witness:
  "(0::int) \<le> 10 \<and> catalog_coverage [[1, 2]] 10 = 1 / 5
   \<and> catalog_coverage [[1, 2]] 10 \<le> catalog_coverage ([[1, 2]] @ [[2, 3]]) 10"
  using catalog_coverage_mono [of 10 "[[1, 2]]" "[[2, 3]]"]
  by (simp add: catalog_coverage_def)

lemma np_index_valid:
  "- int n \<le> i \<Longrightarrow> i < int n \<Longrightarrow> \<exists>r. np_index n i = Inr r \<and> r < n"
  by (auto simp: np_index_def)

lemma matrix_item_unit:
  assumes "square_matrix m" "unit_entries m"
    and "- int (length m) \<le> ii" "ii < int (length m)"
    and "- int (length m) \<le> jj" "jj < int (length m)"
  shows "\<exists>x. matrix_item m ii jj = Inr x \<and> 0 \<le> x \<and> x \<le> 1"
proof -
  obtain r where r: "np_index (length m) ii = Inr r" "r < length m"
    using np_index_valid assms(3,4) by blast
  hence row: "m ! r \<in> set m" by simp
  with assms(1) have len: "length (m ! r) = length m"
    by (simp add: square_matrix_def list_all_iff)
  obtain c where c: "np_index (length m) jj = Inr c" "c < length m"
    using np_index_valid assms(5,6) by blast
  with len have "m ! r ! c \<in> set (m ! r)" by simp
  with row assms(2) have "0 \<le> m ! r ! c \<and> m ! r ! c \<le> 1"
    by (simp add: unit_entries_def list_all_iff)
  with r c len show ?thesis by (simp add: matrix_item_def)
qed

lemma for_each_invariant:
  assumes "I s" and "\<And>x t. x \<in> set xs \<Longrightarrow> I t \<Longrightarrow> \<exists>t'. body x t = Inr t' \<and> I t'"
  shows "\<exists>s'. for_each body xs s = Inr s' \<and> I s'"
  using assms
proof (induction xs arbitrary: s)
  case Nil
  then show ?case by simp
next
  case (Cons x xs)
  from Cons.prems obtain t where t: "body x s = Inr t" "I t" by (meson list.set_intros(1))
  from Cons.IH [OF t(2)] Cons.prems(2) have "\<exists>s'. for_each body xs t = Inr s' \<and> I s'"
    by (meson list.set_intros(2))
  with t show ?case by simp
qed

lemma diversity_step_bounded:
  assumes "square_matrix m" "unit_entries m" "valid_indices m idx"
    and "i < length idx" "j < length idx" "mean_bounded s"
  shows "\<exists>s'. diversity_step m idx i j s = Inr s' \<and> mean_bounded s'"
proof -
  from assms(3,4,5) have
    "- int (length m) \<le> idx ! i" "idx ! i < int (length m)"
    "- int (length m) \<le> idx ! j" "idx ! j < int (length m)"
    by (simp_all add: valid_indices_def list_all_length)
  from matrix_item_unit [OF assms(1,2) this] obtain x where
    "matrix_item m (idx ! i) (idx ! j) = Inr x" "0 \<le> x" "x \<le> 1" by blast
  with assms(6) show ?thesis by (simp add: diversity_step_def mean_bounded_def)
qed

lemma diversity_loops_bounded:
  assumes "square_matrix m" "unit_entries m" "valid_indices m idx"
  shows "\<exists>s. for_each (\<lambda>i. for_each (diversity_step m idx i) [i + 1..<length idx])
               [0..<length idx] (0, 0) = Inr s \<and> mean_bounded s"
proof (rule for_each_invariant [where I = mean_bounded])
  show "mean_bounded (0, 0)" by (simp add: mean_bounded_def)
next
  fix i t
  assume i: "i \<in> set [0..<length idx]" and t: "mean_bounded t"
  show "\<exists>t'. for_each (diversity_step m idx i) [i + 1..<length idx] t = Inr t' \<and> mean_bounded t'"
  proof (rule for_each_invariant [where I = mean_bounded, OF t])
    fix j u
    assume "j \<in> set [i + 1..<length idx]" and "mean_bounded u"
    with i show "\<exists>t'. diversity_step m idx i j u = Inr t' \<and> mean_bounded t'"
      using diversity_step_bounded [OF assms] by simp
  qed
qed

lemma intra_list_diversity_bounded:
  assumes "square_matrix m" "unit_entries m" "valid_indices m idx"
  shows "\<exists>d. intra_list_diversity m idx = Inr d \<and> 0 \<le> d \<and> d \<le> 1"
proof (cases "length idx < 2")
  case True
  then show ?thesis by (simp add: intra_list_diversity_def)
next
  case False
  from diversity_loops_bounded [OF assms] obtain s where
    s: "for_each (\<lambda>i. for_each (diversity_step m idx i) [i + 1..<length idx])
               [0..<length idx] (0, 0) = Inr s" "mean_bounded s" by blast
  have "0 \<le> fst s / real (snd s) \<and> fst s / real (snd s) \<le> 1" if "snd s \<noteq> 0"
    using that s(2) by (simp add: mean_bounded_def)
  with False s(1) show ?thesis by (simp add: intra_list_diversity_def Let_def)
qed

lemma comprehension_bounded:
  "\<forall>r\<in>set rs. \<exists>d. r = Inr d \<and> 0 \<le> d \<and> d \<le> (1::real) \<Longrightarrow>
     \<exists>ds. comprehension rs = Inr ds \<and> length ds = length rs \<and> (\<forall>d\<in>set ds. 0 \<le> d \<and> d \<le> 1)"
  by (induction rs) auto

lemma sum_list_bounded:
  "\<forall>d\<in>set ds. 0 \<le> d \<and> d \<le> (1::real) \<Longrightarrow> 0 \<le> sum_list ds \<and> sum_list ds \<le> real (length ds)"
  by (induction ds) auto

text \<open>
  Claim C10 (diversity lies in the unit interval). For a square similarity matrix with all
  entries in \<open>[0, 1]\<close>: \<open>intra_list_diversity\<close> returns 0 on a list of fewer than two
  indices; on every list of indices of the matrix it returns a value in \<open>[0, 1]\<close>; and
  \<open>average_diversity\<close> over any collection of such lists returns a value in \<open>[0, 1]\<close>.
\<close>

theorem diversity_in_unit_interval:
  assumes "square_matrix m" and "unit_entries m"
  shows "(length idx < 2 \<longrightarrow> intra_list_diversity m idx = Inr 0)
    \<and> (valid_indices m idx \<longrightarrow> (\<exists>d. intra_list_diversity m idx = Inr d \<and> 0 \<le> d \<and> d \<le> 1))
    \<and> (list_all (valid_indices m) all_recommendations \<longrightarrow>
         (\<exists>d. average_diversity m all_recommendations = Inr d \<and> 0 \<le> d \<and> d \<le> 1))"
proof (intro conjI impI)
  show "intra_list_diversity m idx = Inr 0" if "length idx < 2"
    using that by (simp add: intra_list_diversity_def)
  show "\<exists>d. intra_list_diversity m idx = Inr d \<and> 0 \<le> d \<and> d \<le> 1" if "valid_indices m idx"
    using intra_list_diversity_bounded [OF assms that] .
  show "\<exists>d. average_diversity m all_recommendations = Inr d \<and> 0 \<le> d \<and> d \<le> 1"
    if valid: "list_all (valid_indices m) all_recommendations"
  proof -
    let ?rs = "map (intra_list_diversity m) (filter (\<lambda>rec. 2 \<le> length rec) all_recommendations)"
    have "\<forall>r\<in>set ?rs. \<exists>d. r = Inr d \<and> 0 \<le> d \<and> d \<le> 1"
      using valid intra_list_diversity_bounded [OF assms] by (auto simp: list_all_iff)
    from comprehension_bounded [OF this] obtain ds where
      ds: "comprehension ?rs = Inr ds" "\<forall>d\<in>set ds. 0 \<le> d \<and> d \<le> 1" by blast
    from sum_list_bounded [OF ds(2)]
    have "0 \<le> sum_list ds / real (length ds) \<and> sum_list ds / real (length ds) \<le> 1" if "ds \<noteq> []"
      using that by (simp add: divide_le_eq)
    with ds(1) show ?thesis by (simp add: average_diversity_def)
  qed
qed

theorem diversity_in_unit_interval_witness:
  "square_matrix [[1, 1 / 4], [1 / 4, 1]] \<and> unit_entries [[1, 1 / 4], [1 / 4, 1]]
   \<and> valid_indices [[1, 1 / 4], [1 / 4, 1]] [0, 1]
   \<and> list_all (valid_indices [[1, 1 / 4], [1 / 4, 1]]) [[0, 1], [1], [-1, 0, 1]]
   \<and> intra_list_diversity [[1, 1 / 4], [1 / 4, 1]] [1] = Inr 0
   \<and> intra_list_diversity [[1, 1 / 4], [1 / 4, 1]] [0, 1] = Inr (3 / 4)
   \<and> (\<exists>d. average_diversity [[1, 1 / 4], [1 / 4, 1]] [[0, 1], [1], [-1, 0, 1]] = Inr d
          \<and> 0 \<le> d \<and> d \<le> 1)"
  using diversity_in_unit_interval [of "[[1, 1 / 4], [1 / 4, 1]]" "[1]" "[[0, 1], [1], [-1, 0, 1]]"]
    diversity_in_unit_interval [of "[[1, 1 / 4], [1 / 4, 1]]" "[0, 1]" "[[0, 1], [1], [-1, 0, 1]]"]
  by (simp add: square_matrix_def unit_entries_def valid_indices_def intra_list_diversity_def
      diversity_step_def matrix_item_def np_index_def upt_rec)

end
